theory Spec2Isabelle
  imports Main "HOL-Library.Word"
begin

unbundle bit_operations_syntax

section \<open>Semantic analysis of Crema programs (semantics.cpp)\<close>

text \<open>
  A shallow embedding of \<^verbatim>\<open>src/semantics.cpp\<close>: the symbol tables of
  \<^verbatim>\<open>SemanticContext\<close> and the \<^verbatim>\<open>semanticAnalysis\<close>, \<^verbatim>\<open>getType\<close> and
  \<^verbatim>\<open>checkRecursion\<close> members of the AST nodes.

  \<^item> A type is a C++ \<^verbatim>\<open>int\<close>, here a 32-bit word; the list modifier is the constant
    \<^verbatim>\<open>0xF0000000\<close> combined with bitwise or.
  \<^item> An \<^verbatim>\<open>NIdentifier\<close> is compared with \<^verbatim>\<open>==\<close> only; it is the string of its name.
  \<^item> The context is passed explicitly and returned updated.
  \<^item> Undefined behaviour of the C++ (a null pointer that is dereferenced, \<^verbatim>\<open>back()\<close> or
    \<^verbatim>\<open>pop_back()\<close> on an empty vector, an index outside a vector) is a value of type
    \<open>error\<close>, returned as \<open>Inl\<close>.
  \<^item> The recursion check may run forever; it takes fuel, consumed on entering the body of a
    callee, and \<open>None\<close> means that the fuel did not suffice.
  \<^item> The diagnostic lines written to \<^verbatim>\<open>std::cout\<close> are not part of the model.
\<close>

subsection \<open>Data model\<close>

type_synonym type = "32 word"
type_synonym NIdentifier = string

text \<open>
  Expression nodes. \<open>NValue t\<close> stands for a leaf whose \<^verbatim>\<open>getType\<close> is not defined in
  semantics.cpp (a literal): the parameter \<open>t\<close> is the type it yields. The same holds for
  the first field of \<open>NBinaryOperator\<close>, whose \<^verbatim>\<open>getType\<close> is defined outside
  semantics.cpp as well; the operator code is the third field.
\<close>

datatype NExpression =
    NValue type
  | NVariableAccess NIdentifier
  | NFunctionCall NIdentifier "NExpression list"
  | NList "NExpression list"
  | NBinaryOperator type NExpression int NExpression

record NVariableDeclaration =
  v_ident :: NIdentifier
  v_type :: type
  v_size :: int
  initializationExpression :: "NExpression option"

text \<open>
  Statement nodes. \<open>NFunctionCallStmt\<close> is an \<^verbatim>\<open>NFunctionCall\<close> node in the statement list
  of a block.
\<close>

datatype NStatement =
    NBlock "NStatement list"
  | NAssignmentStatement NIdentifier NExpression
  | NReturn NExpression
  | NFunctionCallStmt NIdentifier "NExpression list"
  | NVariableDeclarationStmt NVariableDeclaration

text \<open>The field \<open>body\<close> is the statement list of the \<^verbatim>\<open>NBlock\<close> that \<^verbatim>\<open>body\<close> points to.\<close>

record NFunctionDeclaration =
  f_ident :: NIdentifier
  f_type :: type
  listReturn :: bool
  variables :: "NVariableDeclaration list"
  body :: "NStatement list"

text \<open>
  The fields of \<^verbatim>\<open>SemanticContext\<close> that semantics.cpp reads or writes for variables and
  functions. The vectors of pointers are lists of the declarations pointed to. The
  expected types are the \<^verbatim>\<open>int\<close> values that semantics.cpp pushes and compares. The
  registry of structures, with \<^verbatim>\<open>registerStruct\<close> and \<^verbatim>\<open>searchStructs\<close>, and the fields
  that semantics.cpp never touches are left out.
\<close>

record SemanticContext =
  currScope :: int
  vars :: "NVariableDeclaration list list"
  currType :: "type list"
  funcs :: "NFunctionDeclaration list"

datatype error = NullDereference | EmptyVector | IndexOutOfRange

definition LIST_FLAG :: type where
  "LIST_FLAG = 0xF0000000"

subsection \<open>SemanticContext\<close>

definition newScope :: "type \<Rightarrow> SemanticContext \<Rightarrow> SemanticContext" where
  "newScope t ctx =
     ctx\<lparr>vars := vars ctx @ [[]], currType := currType ctx @ [t], currScope := currScope ctx + 1\<rparr>"

definition delScope :: "SemanticContext \<Rightarrow> error + SemanticContext" where
  "delScope ctx =
     (if vars ctx = [] \<or> currType ctx = [] then Inl EmptyVector
      else Inr (ctx\<lparr>vars := butlast (vars ctx), currType := butlast (currType ctx),
                     currScope := currScope ctx - 1\<rparr>))"

definition scope_has :: "NIdentifier \<Rightarrow> NVariableDeclaration list \<Rightarrow> bool" where
  "scope_has ident scope = (find (\<lambda>v. ident = v_ident v) scope \<noteq> None)"

definition registerVar ::
  "SemanticContext \<Rightarrow> NVariableDeclaration \<Rightarrow> error + (bool \<times> SemanticContext)" where
  "registerVar ctx var =
     (if currScope ctx < 0 \<or> int (length (vars ctx)) \<le> currScope ctx then Inl IndexOutOfRange
      else let j = nat (currScope ctx); scope = vars ctx ! j in
        if scope_has (v_ident var) scope then Inr (False, ctx)
        else Inr (True, ctx\<lparr>vars := (vars ctx)[j := scope @ [var]]\<rparr>))"

definition registerFunc ::
  "SemanticContext \<Rightarrow> NFunctionDeclaration \<Rightarrow> bool \<times> SemanticContext" where
  "registerFunc ctx func =
     (if find (\<lambda>f. f_ident func = f_ident f) (funcs ctx) \<noteq> None then (False, ctx)
      else (True, ctx\<lparr>funcs := funcs ctx @ [func]\<rparr>))"

text \<open>The outer loop of \<^verbatim>\<open>searchVars\<close> runs over the scopes from the last to the first.\<close>

primrec search_scopes ::
  "NIdentifier \<Rightarrow> NVariableDeclaration list list \<Rightarrow> NVariableDeclaration option" where
  "search_scopes ident [] = None"
| "search_scopes ident (scope # scopes) =
     (case find (\<lambda>v. ident = v_ident v) scope of
        Some v \<Rightarrow> Some v
      | None \<Rightarrow> search_scopes ident scopes)"

definition searchVars :: "SemanticContext \<Rightarrow> NIdentifier \<Rightarrow> NVariableDeclaration option" where
  "searchVars ctx ident = search_scopes ident (rev (vars ctx))"

definition searchFuncs :: "SemanticContext \<Rightarrow> NIdentifier \<Rightarrow> NFunctionDeclaration option" where
  "searchFuncs ctx ident = find (\<lambda>f. ident = f_ident f) (funcs ctx)"

subsection \<open>Types of expressions\<close>

fun getType :: "SemanticContext \<Rightarrow> NExpression \<Rightarrow> type"
  and NList_getType_loop :: "SemanticContext \<Rightarrow> type \<Rightarrow> NExpression list \<Rightarrow> type" where
  "getType ctx (NValue t) = t"
| "getType ctx (NBinaryOperator t lhs op rhs) = t"
| "getType ctx (NVariableAccess ident) =
     (case searchVars ctx ident of
        Some var \<Rightarrow> (if v_size var = 1 then v_type var else LIST_FLAG OR v_type var)
      | None \<Rightarrow> 0)"
| "getType ctx (NFunctionCall ident args) =
     (case searchFuncs ctx ident of
        Some func \<Rightarrow> (if listReturn func then LIST_FLAG OR f_type func else f_type func)
      | None \<Rightarrow> 0)"
| "getType ctx (NList []) = 0"
| "getType ctx (NList (v # vs)) = NList_getType_loop ctx (getType ctx v) vs"
| "NList_getType_loop ctx t [] = LIST_FLAG OR t"
| "NList_getType_loop ctx t (v # vs) =
     (if getType ctx v \<noteq> t then 0 else NList_getType_loop ctx t vs)"

subsection \<open>Checks of expressions\<close>

text \<open>The loop of \<^verbatim>\<open>NFunctionCall::semanticAnalysis\<close> over the argument positions.\<close>

fun NFunctionCall_args_loop ::
  "SemanticContext \<Rightarrow> NExpression list \<Rightarrow> NVariableDeclaration list \<Rightarrow> bool" where
  "NFunctionCall_args_loop ctx (a # as) (p # ps) =
     (if getType ctx a \<noteq> v_type p then False else NFunctionCall_args_loop ctx as ps)"
| "NFunctionCall_args_loop ctx _ _ = True"

definition NFunctionCall_semanticAnalysis ::
  "SemanticContext \<Rightarrow> NIdentifier \<Rightarrow> NExpression list \<Rightarrow> bool" where
  "NFunctionCall_semanticAnalysis ctx ident args =
     (case searchFuncs ctx ident of
        Some func \<Rightarrow>
          (if length (variables func) \<noteq> length args then False
           else NFunctionCall_args_loop ctx args (variables func))
      | None \<Rightarrow> False)"

text \<open>
  Modelled from the spec: the \<^verbatim>\<open>semanticAnalysis\<close> of the base class (ast.h), inherited
  by the expression nodes that semantics.cpp gives none of their own, is missing; it
  performs no check and succeeds (last equation). The other equations are
  \<^verbatim>\<open>NBinaryOperator::semanticAnalysis\<close> and \<^verbatim>\<open>NFunctionCall::semanticAnalysis\<close>.
\<close>

fun NExpression_semanticAnalysis :: "SemanticContext \<Rightarrow> NExpression \<Rightarrow> bool" where
  "NExpression_semanticAnalysis ctx (NBinaryOperator t lhs op rhs) =
     (if getType ctx lhs \<noteq> getType ctx rhs then False else True)"
| "NExpression_semanticAnalysis ctx (NFunctionCall ident args) =
     NFunctionCall_semanticAnalysis ctx ident args"
| "NExpression_semanticAnalysis ctx _ = True"

subsection \<open>Checks of statements\<close>

definition NAssignmentStatement_semanticAnalysis ::
  "SemanticContext \<Rightarrow> NIdentifier \<Rightarrow> NExpression \<Rightarrow> error + (bool \<times> SemanticContext)" where
  "NAssignmentStatement_semanticAnalysis ctx ident expr =
     (case searchVars ctx ident of
        None \<Rightarrow> Inl NullDereference
      | Some var \<Rightarrow>
          (let t = (if v_size var = 1 then v_type var else v_type var OR LIST_FLAG) in
           if t \<noteq> getType ctx expr then Inr (False, ctx) else Inr (True, ctx)))"

definition NReturn_semanticAnalysis ::
  "SemanticContext \<Rightarrow> NExpression \<Rightarrow> error + (bool \<times> SemanticContext)" where
  "NReturn_semanticAnalysis ctx retExpr =
     (if currType ctx = [] then Inl EmptyVector
      else if getType ctx retExpr \<noteq> last (currType ctx) then Inr (False, ctx)
      else Inr (True, ctx))"

definition NVariableDeclaration_semanticAnalysis ::
  "SemanticContext \<Rightarrow> NVariableDeclaration \<Rightarrow> error + (bool \<times> SemanticContext)" where
  "NVariableDeclaration_semanticAnalysis ctx this =
     (let ltype = (if v_size this = 1 then v_type this else LIST_FLAG OR v_type this) in
      case registerVar ctx this of
        Inl e \<Rightarrow> Inl e
      | Inr (False, ctx1) \<Rightarrow> Inr (False, ctx1)
      | Inr (True, ctx1) \<Rightarrow>
          (case initializationExpression this of
             None \<Rightarrow> Inr (True, ctx1)
           | Some init \<Rightarrow>
               (if getType ctx1 init \<noteq> ltype \<or> \<not> NExpression_semanticAnalysis ctx1 init
                then Inr (False, ctx1)
                else Inr (True, ctx1))))"

text \<open>
  \<open>semanticAnalysis\<close> dispatches on the statement node; \<open>NBlock_statements_loop\<close> is the
  loop of \<^verbatim>\<open>NBlock::semanticAnalysis\<close>, which returns at the first failing statement
  without reaching \<^verbatim>\<open>delScope\<close>.
\<close>

fun semanticAnalysis ::
    "SemanticContext \<Rightarrow> NStatement \<Rightarrow> error + (bool \<times> SemanticContext)"
  and NBlock_statements_loop ::
    "SemanticContext \<Rightarrow> NStatement list \<Rightarrow> error + (bool \<times> SemanticContext)" where
  "semanticAnalysis ctx (NBlock statements) =
     (if currType ctx = [] then Inl EmptyVector
      else case NBlock_statements_loop (newScope (last (currType ctx)) ctx) statements of
        Inl e \<Rightarrow> Inl e
      | Inr (False, ctx1) \<Rightarrow> Inr (False, ctx1)
      | Inr (True, ctx1) \<Rightarrow>
          (case delScope ctx1 of Inl e \<Rightarrow> Inl e | Inr ctx2 \<Rightarrow> Inr (True, ctx2)))"
| "semanticAnalysis ctx (NAssignmentStatement ident expr) =
     NAssignmentStatement_semanticAnalysis ctx ident expr"
| "semanticAnalysis ctx (NReturn retExpr) = NReturn_semanticAnalysis ctx retExpr"
| "semanticAnalysis ctx (NFunctionCallStmt ident args) =
     Inr (NFunctionCall_semanticAnalysis ctx ident args, ctx)"
| "semanticAnalysis ctx (NVariableDeclarationStmt var) =
     NVariableDeclaration_semanticAnalysis ctx var"
| "NBlock_statements_loop ctx [] = Inr (True, ctx)"
| "NBlock_statements_loop ctx (s # ss) =
     (case semanticAnalysis ctx s of
        Inl e \<Rightarrow> Inl e
      | Inr (False, ctx1) \<Rightarrow> Inr (False, ctx1)
      | Inr (True, ctx1) \<Rightarrow> NBlock_statements_loop ctx1 ss)"

subsection \<open>Recursion check\<close>

text \<open>
  Modelled from the spec: the \<^verbatim>\<open>checkRecursion\<close> of the base class (ast.h), inherited by
  the statement nodes that semantics.cpp gives none of their own, is missing; it finds
  nothing (the equations for assignment, return and variable declaration). The equations
  for blocks and calls are \<^verbatim>\<open>NBlock::checkRecursion\<close> and
  \<^verbatim>\<open>NFunctionCall::checkRecursion\<close>, with fuel. The third argument is the function
  under check; only its identifier is read.
\<close>

fun checkRecursion ::
    "nat \<Rightarrow> SemanticContext \<Rightarrow> NFunctionDeclaration \<Rightarrow> NStatement \<Rightarrow> (error + bool) option"
  and NBlock_checkRecursion ::
    "nat \<Rightarrow> SemanticContext \<Rightarrow> NFunctionDeclaration \<Rightarrow> NStatement list \<Rightarrow> (error + bool) option"
  where
  "checkRecursion n ctx func (NBlock statements) = NBlock_checkRecursion n ctx func statements"
| "checkRecursion n ctx func (NFunctionCallStmt ident args) =
     (if f_ident func = ident then Some (Inr True)
      else case searchFuncs ctx ident of
        None \<Rightarrow> Some (Inl NullDereference)
      | Some callee \<Rightarrow>
          (case n of
             0 \<Rightarrow> None
           | Suc m \<Rightarrow> NBlock_checkRecursion m ctx func (body callee)))"
| "checkRecursion n ctx func (NAssignmentStatement ident expr) = Some (Inr False)"
| "checkRecursion n ctx func (NReturn retExpr) = Some (Inr False)"
| "checkRecursion n ctx func (NVariableDeclarationStmt var) = Some (Inr False)"
| "NBlock_checkRecursion n ctx func [] = Some (Inr False)"
| "NBlock_checkRecursion n ctx func (s # ss) =
     (case checkRecursion n ctx func s of
        None \<Rightarrow> None
      | Some (Inl e) \<Rightarrow> Some (Inl e)
      | Some (Inr True) \<Rightarrow> Some (Inr True)
      | Some (Inr False) \<Rightarrow> NBlock_checkRecursion n ctx func ss)"

subsection \<open>Function declarations\<close>

text \<open>The loop registering the parameters; the verdict of \<^verbatim>\<open>registerVar\<close> is dropped.\<close>

fun register_variables ::
  "SemanticContext \<Rightarrow> NVariableDeclaration list \<Rightarrow> error + SemanticContext" where
  "register_variables ctx [] = Inr ctx"
| "register_variables ctx (v # vs) =
     (case registerVar ctx v of
        Inl e \<Rightarrow> Inl e
      | Inr (_, ctx1) \<Rightarrow> register_variables ctx1 vs)"

definition NFunctionDeclaration_semanticAnalysis ::
  "nat \<Rightarrow> SemanticContext \<Rightarrow> NFunctionDeclaration
     \<Rightarrow> (error + (bool \<times> SemanticContext)) option" where
  "NFunctionDeclaration_semanticAnalysis n ctx this =
     (case register_variables
             (newScope (if listReturn this then f_type this OR LIST_FLAG else f_type this) ctx)
             (variables this) of
        Inl e \<Rightarrow> Some (Inl e)
      | Inr ctx1 \<Rightarrow>
          (case semanticAnalysis ctx1 (NBlock (body this)) of
             Inl e \<Rightarrow> Some (Inl e)
           | Inr (blockSA, ctx2) \<Rightarrow>
               (case NBlock_checkRecursion n ctx2 this (body this) of
                  None \<Rightarrow> None
                | Some (Inl e) \<Rightarrow> Some (Inl e)
                | Some (Inr blockRecur) \<Rightarrow>
                    (case delScope ctx2 of
                       Inl e \<Rightarrow> Some (Inl e)
                     | Inr ctx3 \<Rightarrow> Some (Inr (blockSA \<and> \<not> blockRecur, ctx3))))))"

text \<open>
  Modelled from the spec: the constructor of \<^verbatim>\<open>SemanticContext\<close> is missing; semantics.h
  declares it as creating the root (empty) scope. The root scope expects the type 0.
\<close>

definition rootCtx :: SemanticContext where
  "rootCtx = \<lparr>currScope = 0, vars = [[]], currType = [0], funcs = []\<rparr>"

text \<open>Contexts for examples: one registered function \<open>f\<close> with one parameter \<open>a\<close>.\<close>

definition intParam :: "NIdentifier \<Rightarrow> int \<Rightarrow> NVariableDeclaration" where
  "intParam x n = \<lparr>v_ident = x, v_type = 1, v_size = n, initializationExpression = None\<rparr>"

definition ctxOneParam :: "int \<Rightarrow> SemanticContext" where
  "ctxOneParam n = rootCtx\<lparr>funcs :=
     [\<lparr>f_ident = ''f'', f_type = 1, listReturn = False, variables = [intParam ''a'' n],
       body = []\<rparr>]\<rparr>"

text \<open>Declarations of a scalar variable \<open>x\<close> for examples.\<close>

definition declX :: "NExpression \<Rightarrow> NVariableDeclaration" where
  "declX e = \<lparr>v_ident = ''x'', v_type = 1, v_size = 1, initializationExpression = Some e\<rparr>"


text \<open>
  How a check may change the context: both stacks and the scope index grow by the same
  number \<open>k\<close> of scopes, the registry of functions stays, and \<open>k\<close> is 0 when the
  verdict is true.
\<close>

definition grows :: "SemanticContext \<Rightarrow> SemanticContext \<Rightarrow> bool \<Rightarrow> bool" where
  "grows ctx ctx' b =
     (\<exists>k. length (vars ctx') = length (vars ctx) + k \<and>
          length (currType ctx') = length (currType ctx) + k \<and>
          currScope ctx' = currScope ctx + int k \<and>
          funcs ctx' = funcs ctx \<and> (k = 0 \<or> \<not> b))"

subsection \<open>The call graph seen by the recursion check\<close>

text \<open>
  The identifiers of the call statements of a statement, nested blocks included: the
  calls that \<^verbatim>\<open>NBlock::checkRecursion\<close> dispatches to \<^verbatim>\<open>NFunctionCall::checkRecursion\<close>.
\<close>

fun callees :: "NStatement \<Rightarrow> NIdentifier list"
  and block_callees :: "NStatement list \<Rightarrow> NIdentifier list" where
  "callees (NBlock statements) = block_callees statements"
| "callees (NFunctionCallStmt ident args) = [ident]"
| "callees (NAssignmentStatement ident expr) = []"
| "callees (NReturn retExpr) = []"
| "callees (NVariableDeclarationStmt var) = []"
| "block_callees [] = []"
| "block_callees (s # ss) = callees s @ block_callees ss"

text \<open>
  An edge \<open>(g, f)\<close>: the function registered under \<open>f\<close> has a call statement to
  \<open>g\<close>. \<open>call_graph_below\<close> leaves out the edges from the function under check, whose
  body the traversal never enters.
\<close>

definition call_graph :: "SemanticContext \<Rightarrow> (NIdentifier \<times> NIdentifier) set" where
  "call_graph ctx =
     {(g, f). \<exists>fd. searchFuncs ctx f = Some fd \<and> g \<in> set (block_callees (body fd))}"

definition resolves :: "SemanticContext \<Rightarrow> NIdentifier list \<Rightarrow> bool" where
  "resolves ctx gs = list_all (\<lambda>g. searchFuncs ctx g \<noteq> None) gs"

definition registry_closed :: "SemanticContext \<Rightarrow> bool" where
  "registry_closed ctx = list_all (\<lambda>f. resolves ctx (block_callees (body f))) (funcs ctx)"

definition call_graph_below :: "SemanticContext \<Rightarrow> NIdentifier \<Rightarrow> (NIdentifier \<times> NIdentifier) set" where
  "call_graph_below ctx target = {(g, f). (g, f) \<in> call_graph ctx \<and> f \<noteq> target}"

text \<open>Functions and contexts for examples.\<close>

definition mkFunc :: "NIdentifier \<Rightarrow> NStatement list \<Rightarrow> NFunctionDeclaration" where
  "mkFunc name ss = \<lparr>f_ident = name, f_type = 0, listReturn = False, variables = [], body = ss\<rparr>"

definition ctxCycle :: SemanticContext where
  "ctxCycle = rootCtx\<lparr>funcs :=
     [mkFunc ''B'' [NFunctionCallStmt ''C'' []], mkFunc ''C'' [NFunctionCallStmt ''B'' []]]\<rparr>"

definition funcA :: NFunctionDeclaration where
  "funcA = mkFunc ''A'' [NFunctionCallStmt ''B'' []]"

definition ctxChain :: SemanticContext where
  "ctxChain = rootCtx\<lparr>funcs := [mkFunc ''g'' [], mkFunc ''f'' [NFunctionCallStmt ''g'' []]]\<rparr>"

definition funcF :: NFunctionDeclaration where
  "funcF = mkFunc ''f'' [NFunctionCallStmt ''g'' []]"

text \<open>
  A call path from a statement list back to \<open>target\<close>: a call statement to \<open>target\<close>
  itself, or a call statement to a registered function from whose body there is a call
  path to \<open>target\<close>.
\<close>

inductive call_path :: "SemanticContext \<Rightarrow> NIdentifier \<Rightarrow> NStatement list \<Rightarrow> bool"
  for ctx :: SemanticContext and target :: NIdentifier where
  direct: "target \<in> set (block_callees ss) \<Longrightarrow> call_path ctx target ss"
| indirect: "g \<in> set (block_callees ss) \<Longrightarrow> searchFuncs ctx g = Some gd \<Longrightarrow>
     call_path ctx target (body gd) \<Longrightarrow> call_path ctx target ss"

code_pred call_path .







definition funcAfter :: NFunctionDeclaration where
  "funcAfter = mkFunc ''A'' [NFunctionCallStmt ''B'' [], NFunctionCallStmt ''A'' []]"

definition ctxCycleA :: SemanticContext where
  "ctxCycleA = rootCtx\<lparr>funcs :=
     [mkFunc ''B'' [NFunctionCallStmt ''C'' []], mkFunc ''C'' [NFunctionCallStmt ''B'' []],
      funcAfter]\<rparr>"

section \<open>Properties\<close>

subsection \<open>The type of a list literal\<close>

lemma NList_getType_loop_eq:
  "NList_getType_loop ctx t vs =
     (if list_all (\<lambda>v. getType ctx v = t) vs then LIST_FLAG OR t else 0)"
  by (induction vs) auto

text \<open>
  C6: \<^verbatim>\<open>NList::getType\<close> yields 0 for the empty list; for a non-empty list whose elements
  all have the type \<open>T\<close> it yields \<open>T\<close> with the list flag set; as soon as one element's
  type differs from the type of the first element it yields 0, the value of the empty
  list.
\<close>

theorem NList_getType_cases:
  "getType ctx (NList []) = 0 \<and>
   (vs \<noteq> [] \<and> (\<forall>v\<in>set vs. getType ctx v = T) \<longrightarrow> getType ctx (NList vs) = LIST_FLAG OR T) \<and>
   (vs \<noteq> [] \<and> (\<exists>v\<in>set vs. getType ctx v \<noteq> getType ctx (hd vs)) \<longrightarrow>
      getType ctx (NList vs) = 0)"
  by (cases vs) (auto simp: NList_getType_loop_eq list_all_iff)

theorem NList_getType_cases_witness:
  "[NValue 1, NValue 1] \<noteq> [] \<and> list_all (\<lambda>v. getType rootCtx v = 1) [NValue 1, NValue 1] \<and>
   getType rootCtx (NList [NValue 1, NValue 1]) = LIST_FLAG OR 1 \<and>
   (\<exists>v\<in>set [NValue 1, NValue 2].
      getType rootCtx v \<noteq> getType rootCtx (hd [NValue 1, NValue 2])) \<and>
   getType rootCtx (NList [NValue 1, NValue 2]) = 0 \<and> getType rootCtx (NList []) = 0"
  using NList_getType_cases [of rootCtx "[NValue 1, NValue 1]" 1]
    NList_getType_cases [of rootCtx "[NValue 1, NValue 2]" 1]
  by simp

subsection \<open>Assignment\<close>

lemma NAssignmentStatement_null:
  "searchVars ctx ident = None \<Longrightarrow>
   semanticAnalysis ctx (NAssignmentStatement ident expr) = Inl NullDereference"
  by (simp add: NAssignmentStatement_semanticAnalysis_def)

text \<open>
  C1: an assignment whose target is found in no scope. \<^verbatim>\<open>var->size\<close> is read before the
  test \<^verbatim>\<open>if (!var)\<close>, so the null pointer returned by \<^verbatim>\<open>searchVars\<close> is dereferenced:
  the check does not return false, it has no defined result.
\<close>

theorem NAssignmentStatement_undefined_target:
  "searchVars rootCtx ''x'' = None \<and>
   semanticAnalysis rootCtx (NAssignmentStatement ''x'' (NValue 1)) = Inl NullDereference"
  by (simp add: NAssignmentStatement_semanticAnalysis_def searchVars_def rootCtx_def)

subsection \<open>Arguments of a call\<close>

lemma list_flag_absorb: "LIST_FLAG OR (t::type) = t \<Longrightarrow> t AND LIST_FLAG = LIST_FLAG"
proof -
  assume h: "LIST_FLAG OR t = t"
  have "t AND LIST_FLAG = (LIST_FLAG OR t) AND LIST_FLAG" using h by simp
  also have "\<dots> = LIST_FLAG" by (simp add: bit_eq_iff bit_simps)
  finally show ?thesis .
qed

lemma NFunctionCall_args_loop_eq:
  "length args = length ps \<Longrightarrow>
   NFunctionCall_args_loop ctx args ps = (\<forall>i<length args. getType ctx (args ! i) = v_type (ps ! i))"
  by (induction ctx args ps rule: NFunctionCall_args_loop.induct) (auto simp: less_Suc_eq_0_disj)

text \<open>
  C2, as stated: a list-valued argument whose base type is that of a scalar parameter
  would pass. It does not: \<open>f\<close> has one scalar parameter of type 1, the argument
  \<open>[1]\<close> has the type 1 with the list flag, and the call is rejected.
\<close>

theorem NFunctionCall_list_argument_counterexample:
  "getType (ctxOneParam 1) (NList [NValue 1]) = LIST_FLAG OR 1 \<and>
   semanticAnalysis (ctxOneParam 1) (NFunctionCallStmt ''f'' [NList [NValue 1]]) =
     Inr (False, ctxOneParam 1)"
  by (simp add: ctxOneParam_def intParam_def rootCtx_def NFunctionCall_semanticAnalysis_def
      searchFuncs_def LIST_FLAG_def)

text \<open>
  C2, amended: once the callee is found and the arity check has passed, the computed
  type of each argument, list flag included, is compared with the declared base type of
  the parameter at the same position, and the size marker of the parameter is not
  consulted. The call passes exactly when all these pairs are equal; a list-valued
  argument whose type is the parameter's base type with the list flag added is rejected
  whenever that base type does not carry the flag bits already.
\<close>

theorem NFunctionCall_compares_base_type:
  assumes "searchFuncs ctx ident = Some func" and "length (variables func) = length args"
  shows "semanticAnalysis ctx (NFunctionCallStmt ident args) =
           Inr (\<forall>i<length args. getType ctx (args ! i) = v_type (variables func ! i), ctx) \<and>
         ((\<exists>i<length args. getType ctx (args ! i) = LIST_FLAG OR v_type (variables func ! i) \<and>
              v_type (variables func ! i) AND LIST_FLAG \<noteq> LIST_FLAG) \<longrightarrow>
            semanticAnalysis ctx (NFunctionCallStmt ident args) = Inr (False, ctx))"
proof -
  let ?ok = "\<forall>i<length args. getType ctx (args ! i) = v_type (variables func ! i)"
  have sa: "semanticAnalysis ctx (NFunctionCallStmt ident args) = Inr (?ok, ctx)"
    using assms by (simp add: NFunctionCall_semanticAnalysis_def NFunctionCall_args_loop_eq)
  have "\<not> ?ok" if "i < length args"
    and "getType ctx (args ! i) = LIST_FLAG OR v_type (variables func ! i)"
    and "v_type (variables func ! i) AND LIST_FLAG \<noteq> LIST_FLAG" for i
    using that list_flag_absorb [of "v_type (variables func ! i)"] by metis
  with sa show ?thesis by auto
qed

theorem NFunctionCall_compares_base_type_witness:
  "semanticAnalysis (ctxOneParam 5) (NFunctionCallStmt ''f'' [NValue 1]) =
     Inr (True, ctxOneParam 5) \<and>
   semanticAnalysis (ctxOneParam 5) (NFunctionCallStmt ''f'' [NList [NValue 1]]) =
     Inr (False, ctxOneParam 5)"
  using NFunctionCall_compares_base_type [of "ctxOneParam 5" "''f''"
      "\<lparr>f_ident = ''f'', f_type = 1, listReturn = False, variables = [intParam ''a'' 5], body = []\<rparr>"
      "[NValue 1]"]
    NFunctionCall_compares_base_type [of "ctxOneParam 5" "''f''"
      "\<lparr>f_ident = ''f'', f_type = 1, listReturn = False, variables = [intParam ''a'' 5], body = []\<rparr>"
      "[NList [NValue 1]]"]
  by (simp add: ctxOneParam_def intParam_def rootCtx_def searchFuncs_def LIST_FLAG_def)

subsection \<open>Return\<close>

text \<open>
  C8: a return statement passes exactly when the type computed for its expression
  equals, list flag included, the type on top of the stack of expected return types;
  in the scope opened with type \<open>t\<close> that is \<open>t\<close>.
\<close>

theorem NReturn_semanticAnalysis_iff:
  assumes "currType ctx \<noteq> []"
  shows "semanticAnalysis ctx (NReturn retExpr) =
           Inr (getType ctx retExpr = last (currType ctx), ctx) \<and>
         semanticAnalysis (newScope t ctx) (NReturn retExpr) =
           Inr (getType (newScope t ctx) retExpr = t, newScope t ctx)"
  using assms by (simp add: NReturn_semanticAnalysis_def newScope_def)

theorem NReturn_semanticAnalysis_iff_witness:
  "currType rootCtx \<noteq> [] \<and>
   semanticAnalysis (newScope 1 rootCtx) (NReturn (NValue 1)) = Inr (True, newScope 1 rootCtx) \<and>
   semanticAnalysis (newScope 1 rootCtx) (NReturn (NList [NValue 1])) = Inr (False, newScope 1 rootCtx) \<and>
   semanticAnalysis rootCtx (NReturn (NValue 0)) = Inr (True, rootCtx)"
  using NReturn_semanticAnalysis_iff [of rootCtx "NValue 1" 1]
    NReturn_semanticAnalysis_iff [of rootCtx "NList [NValue 1]" 1]
    NReturn_semanticAnalysis_iff [of rootCtx "NValue 0" 1]
  by (simp add: rootCtx_def LIST_FLAG_def)

subsection \<open>Registration and resolution of variables\<close>

lemma find_snoc:
  "find P (xs @ [x]) = (case find P xs of Some y \<Rightarrow> Some y | None \<Rightarrow> if P x then Some x else None)"
  by (induction xs) auto

lemma registerVar_True:
  assumes "registerVar ctx d = Inr (True, ctx1)"
  shows "0 \<le> currScope ctx" and "currScope ctx < int (length (vars ctx))"
    and "\<not> scope_has (v_ident d) (vars ctx ! nat (currScope ctx))"
    and "ctx1 = ctx\<lparr>vars := (vars ctx)[nat (currScope ctx) := vars ctx ! nat (currScope ctx) @ [d]]\<rparr>"
  using assms by (auto simp: registerVar_def Let_def split: if_splits)

lemma registerVar_False:
  assumes "registerVar ctx d = Inr (False, ctx1)"
  shows "ctx1 = ctx"
  using assms by (auto simp: registerVar_def Let_def split: if_splits)

lemma registerVar_top:
  assumes "currScope ctx = int (length (vars ctx)) - 1" and "vars ctx \<noteq> []"
  shows "registerVar ctx d =
    (if scope_has (v_ident d) (last (vars ctx)) then Inr (False, ctx)
     else Inr (True, ctx\<lparr>vars := butlast (vars ctx) @ [last (vars ctx) @ [d]]\<rparr>))"
proof -
  have n: "nat (int (length (vars ctx)) - 1) = length (vars ctx) - Suc 0" by simp
  have l: "vars ctx ! (length (vars ctx) - Suc 0) = last (vars ctx)"
    using assms(2) by (simp add: last_conv_nth)
  have "(butlast (vars ctx) @ [last (vars ctx)])[length (butlast (vars ctx)) := s] =
      butlast (vars ctx) @ [s]" for s
    by (rule list_update_length)
  then have u: "(vars ctx)[length (vars ctx) - Suc 0 := s] = butlast (vars ctx) @ [s]" for s
    using assms(2) by simp
  show ?thesis using assms by (simp add: registerVar_def Let_def n l u)
qed



text \<open>
  C9: the declaration is registered before its initializer is examined. When the check
  then fails, on the type of the initializer or on the initializer's own analysis, the
  context returned holds the declaration, and a lookup of the identifier finds it.
\<close>

theorem NVariableDeclaration_not_atomic:
  assumes top: "currScope ctx = int (length (vars ctx)) - 1"
    and reg: "registerVar ctx d = Inr (True, ctx1)"
    and init: "initializationExpression d = Some init"
    and bad: "getType ctx1 init \<noteq> (if v_size d = 1 then v_type d else LIST_FLAG OR v_type d) \<or>
              \<not> NExpression_semanticAnalysis ctx1 init"
  shows "semanticAnalysis ctx (NVariableDeclarationStmt d) = Inr (False, ctx1) \<and>
         searchVars ctx1 (v_ident d) = Some d \<and>
         \<not> scope_has (v_ident d) (last (vars ctx))"
proof -
  from registerVar_True [OF reg] top have ne: "vars ctx \<noteq> []" by auto
  from reg registerVar_top [OF top ne, of d]
  have fresh: "\<not> scope_has (v_ident d) (last (vars ctx))"
    and c1: "ctx1 = ctx\<lparr>vars := butlast (vars ctx) @ [last (vars ctx) @ [d]]\<rparr>"
    by (auto split: if_splits)
  have "searchVars ctx1 (v_ident d) = Some d"
    using fresh by (simp add: searchVars_def c1 find_snoc scope_has_def)
  moreover have "semanticAnalysis ctx (NVariableDeclarationStmt d) = Inr (False, ctx1)"
    using reg init bad by (auto simp: NVariableDeclaration_semanticAnalysis_def)
  ultimately show ?thesis using fresh by simp
qed

theorem NVariableDeclaration_not_atomic_witness:
  "semanticAnalysis (ctxOneParam 1) (NVariableDeclarationStmt (declX (NList [NValue 1]))) =
     Inr (False, ctxOneParam 1\<lparr>vars := [[declX (NList [NValue 1])]]\<rparr>) \<and>
   searchVars (ctxOneParam 1\<lparr>vars := [[declX (NList [NValue 1])]]\<rparr>) ''x'' =
     Some (declX (NList [NValue 1])) \<and>
   getType (ctxOneParam 1\<lparr>vars := [[declX (NFunctionCall ''f'' [])]]\<rparr>) (NFunctionCall ''f'' []) = 1 \<and>
   semanticAnalysis (ctxOneParam 1) (NVariableDeclarationStmt (declX (NFunctionCall ''f'' []))) =
     Inr (False, ctxOneParam 1\<lparr>vars := [[declX (NFunctionCall ''f'' [])]]\<rparr>) \<and>
   searchVars (ctxOneParam 1\<lparr>vars := [[declX (NFunctionCall ''f'' [])]]\<rparr>) ''x'' =
     Some (declX (NFunctionCall ''f'' []))"
  using NVariableDeclaration_not_atomic [of "ctxOneParam 1" "declX (NList [NValue 1])"
      "ctxOneParam 1\<lparr>vars := [[declX (NList [NValue 1])]]\<rparr>" "NList [NValue 1]"]
    NVariableDeclaration_not_atomic [of "ctxOneParam 1" "declX (NFunctionCall ''f'' [])"
      "ctxOneParam 1\<lparr>vars := [[declX (NFunctionCall ''f'' [])]]\<rparr>" "NFunctionCall ''f'' []"]
  by (simp add: ctxOneParam_def rootCtx_def declX_def registerVar_def scope_has_def LIST_FLAG_def
      NFunctionCall_semanticAnalysis_def searchFuncs_def intParam_def)

subsection \<open>The two stacks\<close>

lemma grows_refl: "grows ctx ctx b"
  by (simp add: grows_def)

lemma registerVar_grows: "registerVar ctx d = Inr (b, ctx') \<Longrightarrow> grows ctx ctx' b'"
  by (auto simp: registerVar_def Let_def grows_def split: if_splits)

lemma NBlock_grows:
  assumes "grows (newScope t ctx) ctx1 b"
  shows "\<not> b \<Longrightarrow> grows ctx ctx1 False"
    and "b \<Longrightarrow> \<exists>ctx2. delScope ctx1 = Inr ctx2 \<and> grows ctx ctx2 True"
  using assms by (auto simp: grows_def newScope_def delScope_def)

lemma grows_trans: "grows c0 c1 True \<Longrightarrow> grows c1 c2 b \<Longrightarrow> grows c0 c2 b"
  by (auto simp: grows_def)

lemma semanticAnalysis_grows:
  "semanticAnalysis ctx s = Inr (b, ctx') \<Longrightarrow> grows ctx ctx' b"
  "NBlock_statements_loop ctx ss = Inr (b, ctx') \<Longrightarrow> grows ctx ctx' b"
proof (induction ctx s and ctx ss arbitrary: b ctx' and b ctx'
    rule: semanticAnalysis_NBlock_statements_loop.induct)
  case (1 ctx statements)
  then show ?case
    by (fastforce split: if_splits sum.splits bool.splits prod.splits
        dest: NBlock_grows)
next
  case (2 ctx ident expr)
  then show ?case
    by (auto simp: NAssignmentStatement_semanticAnalysis_def grows_refl Let_def
        split: option.splits if_splits)
next
  case (3 ctx retExpr)
  then show ?case
    by (auto simp: NReturn_semanticAnalysis_def grows_refl split: if_splits)
next
  case (4 ctx ident args)
  then show ?case by (auto simp: grows_refl)
next
  case (5 ctx var)
  then show ?case
    by (auto simp: NVariableDeclaration_semanticAnalysis_def Let_def
        split: sum.splits bool.splits prod.splits option.splits if_splits
        dest: registerVar_grows)
next
  case (6 ctx)
  then show ?case by (auto simp: grows_refl)
next
  case (7 ctx s ss)
  show ?case
  proof (cases "semanticAnalysis ctx s")
    case (Inl e)
    with "7.prems" show ?thesis by simp
  next
    case (Inr r)
    obtain b1 c1 where r: "r = (b1, c1)" by (cases r)
    have g1: "grows ctx c1 b1" using "7.IH"(1) Inr r by simp
    show ?thesis
    proof (cases b1)
      case True
      then have "NBlock_statements_loop c1 ss = Inr (b, ctx')"
        using "7.prems" Inr r by simp
      then have "grows c1 ctx' b" using "7.IH"(2) Inr r True by simp
      with g1 True show ?thesis by (auto intro: grows_trans)
    next
      case False
      then show ?thesis using "7.prems" Inr r g1 by simp
    qed
  qed
qed

lemma semanticAnalysis_parity:
  assumes "semanticAnalysis ctx s = Inr (b, ctx')"
    and "length (vars ctx) = length (currType ctx)"
  shows "length (vars ctx') = length (currType ctx')"
  using semanticAnalysis_grows(1) [OF assms(1)] assms(2) by (auto simp: grows_def)

lemma scope_index_kept:
  assumes "semanticAnalysis ctx s = Inr (b, ctx')"
    and "currScope ctx = int (length (vars ctx)) - 1"
  shows "currScope ctx' = int (length (vars ctx')) - 1"
  using semanticAnalysis_grows(1) [OF assms(1)] assms(2) by (auto simp: grows_def)

lemma newScope_parity:
  "length (vars ctx) = length (currType ctx) \<Longrightarrow>
   length (vars (newScope t ctx)) = length (currType (newScope t ctx))"
  by (simp add: newScope_def)

lemma delScope_parity:
  "length (vars ctx) = length (currType ctx) \<Longrightarrow> delScope ctx = Inr ctx' \<Longrightarrow>
   length (vars ctx') = length (currType ctx')"
  by (auto simp: delScope_def split: if_splits)

text \<open>
  C3: the two stacks keep equal lengths (the lemmas above), but the scope pushed by a
  block is not popped when a statement of the block fails: the block returns before
  \<^verbatim>\<open>delScope\<close>. Here the block holds a return of type 1 where 0 is expected; the
  context returned has two scopes where the root context had one.
\<close>

theorem NBlock_failure_keeps_scope:
  "semanticAnalysis rootCtx (NBlock [NReturn (NValue 1)]) = Inr (False, newScope 0 rootCtx) \<and>
   vars rootCtx = [[]] \<and> currType rootCtx = [0] \<and>
   vars (newScope 0 rootCtx) = [[], []] \<and> currType (newScope 0 rootCtx) = [0, 0]"
  by (simp add: rootCtx_def newScope_def NReturn_semanticAnalysis_def)

subsection \<open>The recursion check: fuel, termination, undefined callees\<close>

text \<open>More fuel never changes a result.\<close>

lemma fuel_mono:
  "checkRecursion n ctx f s = Some r \<Longrightarrow> n \<le> m \<Longrightarrow> checkRecursion m ctx f s = Some r"
  "NBlock_checkRecursion n ctx f ss = Some r \<Longrightarrow> n \<le> m \<Longrightarrow>
   NBlock_checkRecursion m ctx f ss = Some r"
proof (induction n ctx f s and n ctx f ss arbitrary: r m and r m
    rule: checkRecursion_NBlock_checkRecursion.induct)
  case (1 n ctx func statements)
  from "1.prems"(1) have "NBlock_checkRecursion n ctx func statements = Some r" by simp
  from "1.IH" [OF this "1.prems"(2)] show ?case by simp
next
  case (2 n ctx func ident args)
  show ?case
  proof (cases "f_ident func = ident")
    case True
    with "2.prems" show ?thesis by simp
  next
    case differs: False
    show ?thesis
    proof (cases "searchFuncs ctx ident")
      case None
      with differs "2.prems" show ?thesis by simp
    next
      case (Some callee)
      with differs "2.prems" obtain k where n: "n = Suc k"
        and run: "NBlock_checkRecursion k ctx func (body callee) = Some r"
        by (cases n) auto
      from n "2.prems" obtain j where m: "m = Suc j" and kj: "k \<le> j"
        by (cases m) auto
      from "2.IH" [OF differs Some n run kj] differs Some m show ?thesis by simp
    qed
  qed
next
  case (7 n ctx func s ss)
  show ?case
  proof (cases "checkRecursion n ctx func s")
    case None
    with "7.prems" show ?thesis by simp
  next
    case (Some x)
    from "7.IH"(1) [OF Some "7.prems"(2)] have at_m: "checkRecursion m ctx func s = Some x" .
    show ?thesis
    proof (cases x)
      case (Inl e)
      with Some at_m "7.prems"(1) show ?thesis by auto
    next
      case (Inr b)
      show ?thesis
      proof (cases b)
        case True
        with Some at_m Inr "7.prems"(1) show ?thesis by auto
      next
        case False
        then have bF: "b = False" by simp
        from False Some Inr "7.prems" have "NBlock_checkRecursion n ctx func ss = Some r" by simp
        from "7.IH"(2) [OF Some Inr bF this "7.prems"(2)] Some at_m Inr False
        show ?thesis by simp
      qed
    qed
  qed
qed simp_all

lemma cycle_diverges:
  "NBlock_checkRecursion n ctxCycle (mkFunc ''A'' ss) [NFunctionCallStmt ''B'' []] = None \<and>
   NBlock_checkRecursion n ctxCycle (mkFunc ''A'' ss) [NFunctionCallStmt ''C'' []] = None"
proof (induction n)
  case 0
  show ?case by (simp add: ctxCycle_def mkFunc_def searchFuncs_def rootCtx_def)
next
  case (Suc n)
  then show ?case by (simp add: ctxCycle_def mkFunc_def searchFuncs_def rootCtx_def)
qed

lemma searchFuncs_Some:
  "searchFuncs ctx g = Some fd \<Longrightarrow> fd \<in> set (funcs ctx) \<and> f_ident fd = g"
  by (auto simp: searchFuncs_def find_Some_iff)

lemma finite_call_graph: "finite (call_graph ctx)"
proof -
  have "call_graph ctx \<subseteq>
      (\<Union>fd\<in>set (funcs ctx). set (block_callees (body fd))) \<times> f_ident ` set (funcs ctx)"
    by (auto simp: call_graph_def dest!: searchFuncs_Some)
  then show ?thesis by (rule finite_subset) simp
qed

lemma checkRecursion_finishes:
  "(\<forall>c\<in>set (callees s). c \<noteq> f_ident func \<longrightarrow>
      (\<exists>cd n b. searchFuncs ctx c = Some cd \<and>
         NBlock_checkRecursion n ctx func (body cd) = Some (Inr b))) \<Longrightarrow>
   \<exists>n b. checkRecursion n ctx func s = Some (Inr b)"
  "(\<forall>c\<in>set (block_callees ss). c \<noteq> f_ident func \<longrightarrow>
      (\<exists>cd n b. searchFuncs ctx c = Some cd \<and>
         NBlock_checkRecursion n ctx func (body cd) = Some (Inr b))) \<Longrightarrow>
   \<exists>n b. NBlock_checkRecursion n ctx func ss = Some (Inr b)"
proof (induction s and ss rule: callees_block_callees.induct)
  case (1 statements)
  then show ?case by simp
next
  case (2 ident args)
  show ?case
  proof (cases "ident = f_ident func")
    case True
    then show ?thesis by auto
  next
    case False
    with 2 obtain cd n b where "searchFuncs ctx ident = Some cd"
      and "NBlock_checkRecursion n ctx func (body cd) = Some (Inr b)" by auto
    with False have "checkRecursion (Suc n) ctx func (NFunctionCallStmt ident args) = Some (Inr b)"
      by auto
    then show ?thesis by blast
  qed
next
  case (7 s ss)
  from "7.IH"(1) "7.prems" obtain n1 b1 where "checkRecursion n1 ctx func s = Some (Inr b1)"
    by auto
  then have s: "checkRecursion (max n1 n2) ctx func s = Some (Inr b1)" for n2
    by (rule fuel_mono(1)) simp
  from "7.IH"(2) "7.prems" obtain n2 b2 where "NBlock_checkRecursion n2 ctx func ss = Some (Inr b2)"
    by auto
  then have ss: "NBlock_checkRecursion (max n1 n2) ctx func ss = Some (Inr b2)"
    by (rule fuel_mono(2)) simp
  have "NBlock_checkRecursion (max n1 n2) ctx func (s # ss) = Some (Inr (b1 \<or> b2))"
    using s [of n2] ss by (cases b1) simp_all
  then show ?case by blast
qed auto

lemma callee_finishes:
  assumes wf: "wf (call_graph_below ctx (f_ident func))" and closed: "registry_closed ctx"
  shows "searchFuncs ctx g = Some gd \<Longrightarrow> g \<noteq> f_ident func \<Longrightarrow>
         \<exists>n b. NBlock_checkRecursion n ctx func (body gd) = Some (Inr b)"
proof (induction g arbitrary: gd rule: wf_induct_rule [OF wf])
  case (1 g)
  have "\<exists>cd n b. searchFuncs ctx c = Some cd \<and>
          NBlock_checkRecursion n ctx func (body cd) = Some (Inr b)"
    if c: "c \<in> set (block_callees (body gd))" and other: "c \<noteq> f_ident func" for c
  proof -
    from "1.prems"(1) have "gd \<in> set (funcs ctx)" by (simp add: searchFuncs_Some)
    with closed c obtain cd where cd: "searchFuncs ctx c = Some cd"
      by (auto simp: registry_closed_def resolves_def list_all_iff)
    have "(c, g) \<in> call_graph_below ctx (f_ident func)"
      using c "1.prems" by (auto simp: call_graph_below_def call_graph_def)
    from "1.IH" [OF this cd other] cd show ?thesis by blast
  qed
  then show ?case by (intro checkRecursion_finishes(2)) blast
qed

lemma NBlock_checkRecursion_finishes:
  assumes "acyclic (call_graph_below ctx (f_ident func))" and "registry_closed ctx"
    and "resolves ctx (block_callees ss)"
  shows "\<exists>n b. NBlock_checkRecursion n ctx func ss = Some (Inr b)"
proof -
  have "call_graph_below ctx (f_ident func) \<subseteq> call_graph ctx"
    by (auto simp: call_graph_below_def)
  then have "finite (call_graph_below ctx (f_ident func))"
    by (rule finite_subset) (rule finite_call_graph)
  then have wf: "wf (call_graph_below ctx (f_ident func))"
    using assms(1) by (rule finite_acyclic_wf)
  have "\<exists>cd n b. searchFuncs ctx c = Some cd \<and>
          NBlock_checkRecursion n ctx func (body cd) = Some (Inr b)"
    if c: "c \<in> set (block_callees ss)" and other: "c \<noteq> f_ident func" for c
  proof -
    from assms(3) c obtain cd where cd: "searchFuncs ctx c = Some cd"
      by (auto simp: resolves_def list_all_iff)
    from callee_finishes [OF wf assms(2) cd other] cd show ?thesis by blast
  qed
  then show ?thesis by (intro checkRecursion_finishes(2)) blast
qed

lemma register_variables_grows:
  "register_variables c vs = Inr c' \<Longrightarrow> grows c c' True"
proof (induction vs arbitrary: c)
  case Nil
  then show ?case by (simp add: grows_refl)
next
  case (Cons v vs)
  then show ?case
    by (auto split: sum.splits prod.splits intro: grows_trans dest: registerVar_grows)
qed

lemma searchFuncs_cong: "funcs c = funcs c' \<Longrightarrow> searchFuncs c g = searchFuncs c' g"
  by (simp add: searchFuncs_def)

lemma checkRecursion_cong:
  "funcs c = funcs c' \<Longrightarrow> checkRecursion n c func s = checkRecursion n c' func s"
  "funcs c = funcs c' \<Longrightarrow> NBlock_checkRecursion n c func ss = NBlock_checkRecursion n c' func ss"
proof (induction n c func s and n c func ss
    rule: checkRecursion_NBlock_checkRecursion.induct)
  case (2 n ctx func ident args)
  have sf: "searchFuncs ctx ident = searchFuncs c' ident"
    using "2.prems" by (rule searchFuncs_cong)
  show ?case
  proof (cases "f_ident func = ident")
    case True
    then show ?thesis by simp
  next
    case differs: False
    show ?thesis
    proof (cases "searchFuncs ctx ident")
      case None
      with differs sf show ?thesis by simp
    next
      case (Some callee)
      show ?thesis
      proof (cases n)
        case 0
        with differs Some sf show ?thesis by simp
      next
        case (Suc k)
        from "2.IH" [OF differs Some Suc "2.prems"] differs Some sf Suc show ?thesis by simp
      qed
    qed
  qed
next
  case (7 n ctx func s ss)
  from "7.IH"(1) [OF "7.prems"] have s: "checkRecursion n ctx func s = checkRecursion n c' func s" .
  show ?case
  proof (cases "checkRecursion n ctx func s = Some (Inr False)")
    case True
    from "7.IH"(2) [OF True refl refl "7.prems"] True s show ?thesis by simp
  next
    case False
    with s show ?thesis by (simp split: option.splits sum.splits bool.splits)
  qed
qed simp_all

lemma checkRecursion_no_null:
  "registry_closed ctx \<Longrightarrow> resolves ctx (callees s) \<Longrightarrow>
   checkRecursion n ctx func s \<noteq> Some (Inl e)"
  "registry_closed ctx \<Longrightarrow> resolves ctx (block_callees ss) \<Longrightarrow>
   NBlock_checkRecursion n ctx func ss \<noteq> Some (Inl e)"
proof (induction n ctx func s and n ctx func ss
    rule: checkRecursion_NBlock_checkRecursion.induct)
  case (2 n ctx func ident args)
  show ?case
  proof (cases "f_ident func = ident")
    case True
    then show ?thesis by simp
  next
    case differs: False
    from "2.prems"(2) obtain callee where Some: "searchFuncs ctx ident = Some callee"
      by (auto simp: resolves_def)
    then have "callee \<in> set (funcs ctx)" by (simp add: searchFuncs_Some)
    with "2.prems"(1) have res: "resolves ctx (block_callees (body callee))"
      by (simp add: registry_closed_def list_all_iff)
    show ?thesis
    proof (cases n)
      case 0
      with differs Some show ?thesis by simp
    next
      case (Suc k)
      from "2.IH" [OF differs Some Suc "2.prems"(1) res] differs Some Suc show ?thesis by simp
    qed
  qed
next
  case (7 n ctx func s ss)
  from "7.prems"(2) have rs: "resolves ctx (callees s)" and rss: "resolves ctx (block_callees ss)"
    by (simp_all add: resolves_def)
  from "7.IH"(1) [OF "7.prems"(1) rs] have s: "checkRecursion n ctx func s \<noteq> Some (Inl e)" .
  show ?case
  proof (cases "checkRecursion n ctx func s = Some (Inr False)")
    case True
    from "7.IH"(2) [OF True refl refl "7.prems"(1) rss] True show ?thesis by simp
  next
    case False
    with s show ?thesis by (auto split: option.splits sum.splits bool.splits)
  qed
qed simp_all

text \<open>
  C4: the traversal keeps no set of visited functions. With \<open>B\<close> calling \<open>C\<close> and
  \<open>C\<close> calling \<open>B\<close>, the check of \<open>A\<close>, whose body calls \<open>B\<close>, returns for no
  amount of fuel, and neither does the check of the declaration of \<open>A\<close>. When the
  call graph is acyclic and every callee, of the statements checked and of the registered
  functions, is registered, some amount of fuel yields a verdict.
\<close>

theorem checkRecursion_termination:
  "(\<forall>n. checkRecursion n ctxCycle funcA (NFunctionCallStmt ''B'' []) = None \<and>
        NFunctionDeclaration_semanticAnalysis n ctxCycle funcA = None) \<and>
   (''C'', ''B'') \<in> call_graph ctxCycle \<and> (''B'', ''C'') \<in> call_graph ctxCycle \<and>
   f_ident funcA = ''A'' \<and>
   (acyclic (call_graph ctx) \<and> registry_closed ctx \<and> resolves ctx (block_callees ss) \<longrightarrow>
      (\<exists>n b. NBlock_checkRecursion n ctx func ss = Some (Inr b)))"
proof -
  have div: "NBlock_checkRecursion n ctxCycle funcA [NFunctionCallStmt ''B'' []] = None" for n
    using cycle_diverges [of n "[NFunctionCallStmt ''B'' []]"] by (simp add: funcA_def)
  have call: "checkRecursion n ctxCycle funcA (NFunctionCallStmt ''B'' []) = None" for n
    using div [of n]
    by (cases "checkRecursion n ctxCycle funcA (NFunctionCallStmt ''B'' [])")
      (auto simp del: checkRecursion.simps split: sum.splits bool.splits)
  have sa: "semanticAnalysis (newScope 0 ctxCycle) (NBlock (body funcA)) =
      Inr (True, newScope 0 ctxCycle)"
    by (simp add: funcA_def mkFunc_def ctxCycle_def rootCtx_def newScope_def delScope_def
        NFunctionCall_semanticAnalysis_def searchFuncs_def)
  have fs: "funcs (newScope 0 ctxCycle) = funcs ctxCycle" by (simp add: newScope_def)
  have bA: "body funcA = [NFunctionCallStmt ''B'' []]" by (simp add: funcA_def mkFunc_def)
  have rec: "NBlock_checkRecursion n (newScope 0 ctxCycle) funcA (body funcA) = None" for n
    unfolding bA checkRecursion_cong(2) [OF fs] by (rule div)
  have pre: "listReturn funcA = False" "f_type funcA = 0" "variables funcA = []"
    by (simp_all add: funcA_def mkFunc_def)
  have decl: "NFunctionDeclaration_semanticAnalysis n ctxCycle funcA = None" for n
    by (simp add: NFunctionDeclaration_semanticAnalysis_def pre sa rec
        del: semanticAnalysis.simps)
  have edges: "(''C'', ''B'') \<in> call_graph ctxCycle" "(''B'', ''C'') \<in> call_graph ctxCycle"
    by (simp_all add: call_graph_def ctxCycle_def mkFunc_def searchFuncs_def)
  have "\<exists>n b. NBlock_checkRecursion n ctx func ss = Some (Inr b)"
    if "acyclic (call_graph ctx)" and "registry_closed ctx" and "resolves ctx (block_callees ss)"
  proof -
    have "call_graph_below ctx (f_ident func) \<subseteq> call_graph ctx"
      by (auto simp: call_graph_below_def)
    with that(1) have "acyclic (call_graph_below ctx (f_ident func))"
      by (rule acyclic_subset)
    then show ?thesis using that(2,3) by (rule NBlock_checkRecursion_finishes)
  qed
  with call decl edges show ?thesis by (simp add: funcA_def mkFunc_def)
qed

theorem checkRecursion_termination_witness:
  "registry_closed ctxChain \<and> resolves ctxChain (block_callees [NFunctionCallStmt ''f'' []]) \<and>
   call_graph ctxChain = {(''g'', ''f'')} \<and>
   (\<exists>n b. NBlock_checkRecursion n ctxChain funcA [NFunctionCallStmt ''f'' []] = Some (Inr b)) \<and>
   NBlock_checkRecursion 2 ctxChain funcA [NFunctionCallStmt ''f'' []] = Some (Inr False)"
proof -
  have g: "call_graph ctxChain = {(''g'', ''f'')}"
    by (auto simp: call_graph_def ctxChain_def mkFunc_def searchFuncs_def split: if_splits)
  have a: "acyclic (call_graph ctxChain)"
    by (simp add: g wf_acyclic)
  have c: "registry_closed ctxChain"
    by (simp add: registry_closed_def resolves_def ctxChain_def mkFunc_def searchFuncs_def)
  have r: "resolves ctxChain (block_callees [NFunctionCallStmt ''f'' []])"
    by (simp add: resolves_def ctxChain_def mkFunc_def searchFuncs_def)
  have e: "NBlock_checkRecursion 2 ctxChain funcA [NFunctionCallStmt ''f'' []] = Some (Inr False)"
    by (simp add: numeral_2_eq_2 ctxChain_def mkFunc_def searchFuncs_def funcA_def)
  from checkRecursion_termination [of ctxChain "[NFunctionCallStmt ''f'' []]" funcA] a c r g e
  show ?thesis by blast
qed

text \<open>
  C10: a call to a function other than the one under check whose identifier
  \<^verbatim>\<open>searchFuncs\<close> does not find dereferences a null pointer; when all callees are
  registered no null pointer is dereferenced. The declaration check does not establish
  that: with an unregistered callee first in the body, the analysis of the body has
  failed (and left its scope) and the recursion check still runs, into the null pointer.
\<close>

theorem checkRecursion_needs_registered_callees:
  "(ident \<noteq> f_ident func \<and> searchFuncs ctx ident = None \<longrightarrow>
      checkRecursion n ctx func (NFunctionCallStmt ident args) = Some (Inl NullDereference)) \<and>
   (registry_closed ctx \<and> resolves ctx (callees s) \<longrightarrow>
      checkRecursion n ctx func s \<noteq> Some (Inl e)) \<and>
   (register_variables
        (newScope (if listReturn this then f_type this OR LIST_FLAG else f_type this) ctx)
        (variables this) = Inr ctx1 \<and>
    body this = NFunctionCallStmt g gargs # rest \<and> g \<noteq> f_ident this \<and>
    searchFuncs ctx g = None \<longrightarrow>
      semanticAnalysis ctx1 (NBlock (body this)) =
        Inr (False, newScope (last (currType ctx1)) ctx1) \<and>
      NFunctionDeclaration_semanticAnalysis n ctx this = Some (Inl NullDereference))"
proof -
  have caller: "semanticAnalysis ctx1 (NBlock (body this)) =
        Inr (False, newScope (last (currType ctx1)) ctx1) \<and>
      NFunctionDeclaration_semanticAnalysis n ctx this = Some (Inl NullDereference)"
    if reg: "register_variables
        (newScope (if listReturn this then f_type this OR LIST_FLAG else f_type this) ctx)
        (variables this) = Inr ctx1"
      and body: "body this = NFunctionCallStmt g gargs # rest"
      and other: "g \<noteq> f_ident this" and undefined: "searchFuncs ctx g = None"
  proof -
    from register_variables_grows [OF reg]
    have ne: "currType ctx1 \<noteq> []" and fs: "funcs ctx1 = funcs ctx"
      by (auto simp: grows_def newScope_def)
    let ?c2 = "newScope (last (currType ctx1)) ctx1"
    have fs2: "funcs ?c2 = funcs ctx" using fs by (simp add: newScope_def)
    have u2: "searchFuncs ?c2 g = None"
      using undefined searchFuncs_cong [OF fs2, of g] by simp
    have sa: "semanticAnalysis ctx1 (NBlock (body this)) = Inr (False, ?c2)"
      using ne u2 by (simp add: body NFunctionCall_semanticAnalysis_def)
    have "NBlock_checkRecursion n ?c2 this (body this) = Some (Inl NullDereference)"
      using other u2 by (simp add: body)
    with reg sa show ?thesis
      by (simp add: NFunctionDeclaration_semanticAnalysis_def)
  qed
  have "checkRecursion n ctx func s \<noteq> Some (Inl e)"
    if "registry_closed ctx" and "resolves ctx (callees s)"
    using that by (rule checkRecursion_no_null(1))
  with caller show ?thesis by auto
qed

theorem checkRecursion_needs_registered_callees_witness:
  "searchFuncs rootCtx ''g'' = None \<and>
   checkRecursion 5 rootCtx funcF (NFunctionCallStmt ''g'' []) = Some (Inl NullDereference) \<and>
   semanticAnalysis (newScope 0 rootCtx) (NBlock (body funcF)) =
     Inr (False, newScope 0 (newScope 0 rootCtx)) \<and>
   NFunctionDeclaration_semanticAnalysis 5 rootCtx funcF = Some (Inl NullDereference) \<and>
   registry_closed ctxChain \<and>
   checkRecursion 5 ctxChain funcF (NFunctionCallStmt ''g'' []) \<noteq> Some (Inl NullDereference)"
  using checkRecursion_needs_registered_callees [of "''g''" funcF rootCtx 5 "[]"
        "NFunctionCallStmt ''g'' []" NullDereference funcF "newScope 0 rootCtx" "''g''" "[]" "[]"]
    checkRecursion_needs_registered_callees [of "''g''" funcF ctxChain 5 "[]"
        "NFunctionCallStmt ''g'' []" NullDereference funcF "newScope 0 rootCtx" "''g''" "[]" "[]"]
  by (simp add: funcF_def mkFunc_def rootCtx_def searchFuncs_def newScope_def ctxChain_def
      registry_closed_def resolves_def)

subsection \<open>The verdict on a function declaration\<close>

lemma call_path_iff:
  "call_path ctx t ss \<longleftrightarrow>
     (\<exists>g\<in>set (block_callees ss). g = t \<or>
        (\<exists>gd. searchFuncs ctx g = Some gd \<and> call_path ctx t (body gd)))"
  by (auto elim: call_path.cases intro: call_path.intros)











text \<open>
  A self-call that stands behind a call into a cycle is never reached: the body of \<open>A\<close>
  passes its analysis and has a call statement to \<open>A\<close>, and the check of the
  declaration returns no verdict, whatever the fuel.
\<close>

lemma cycle_before_self_call:
  "NBlock_checkRecursion n ctxCycleA funcAfter [NFunctionCallStmt ''B'' []] = None \<and>
   NBlock_checkRecursion n ctxCycleA funcAfter [NFunctionCallStmt ''C'' []] = None"
proof (induction n)
  case 0
  show ?case by (simp add: ctxCycleA_def funcAfter_def mkFunc_def searchFuncs_def rootCtx_def)
next
  case (Suc n)
  then show ?case
    by (simp add: ctxCycleA_def funcAfter_def mkFunc_def searchFuncs_def rootCtx_def)
qed

lemma self_call_after_cycle_no_verdict:
  "f_ident funcAfter \<in> set (block_callees (body funcAfter)) \<and>
   semanticAnalysis (newScope 0 ctxCycleA) (NBlock (body funcAfter)) =
     Inr (True, newScope 0 ctxCycleA) \<and>
   NFunctionDeclaration_semanticAnalysis n ctxCycleA funcAfter = None"
proof -
  have bA: "body funcAfter = [NFunctionCallStmt ''B'' [], NFunctionCallStmt ''A'' []]"
    and pre: "listReturn funcAfter = False" "f_type funcAfter = 0" "variables funcAfter = []"
      "f_ident funcAfter = ''A''"
    by (simp_all add: funcAfter_def mkFunc_def)
  have call: "checkRecursion n ctxCycleA funcAfter (NFunctionCallStmt ''B'' []) = None"
    using cycle_before_self_call [of n]
    by (cases "checkRecursion n ctxCycleA funcAfter (NFunctionCallStmt ''B'' [])")
      (auto simp del: checkRecursion.simps split: sum.splits bool.splits)
  have run: "NBlock_checkRecursion n ctxCycleA funcAfter (body funcAfter) = None"
    unfolding bA using call by (simp del: checkRecursion.simps)
  have fs: "funcs (newScope 0 ctxCycleA) = funcs ctxCycleA" by (simp add: newScope_def)
  have rec: "NBlock_checkRecursion n (newScope 0 ctxCycleA) funcAfter (body funcAfter) = None"
    unfolding checkRecursion_cong(2) [OF fs] by (rule run)
  have sa: "semanticAnalysis (newScope 0 ctxCycleA) (NBlock (body funcAfter)) =
      Inr (True, newScope 0 ctxCycleA)"
    by (simp add: funcAfter_def mkFunc_def ctxCycleA_def rootCtx_def newScope_def delScope_def
        NFunctionCall_semanticAnalysis_def searchFuncs_def)
  have "NFunctionDeclaration_semanticAnalysis n ctxCycleA funcAfter = None"
    by (simp add: NFunctionDeclaration_semanticAnalysis_def pre sa rec
        del: semanticAnalysis.simps)
  with sa show ?thesis by (simp add: bA pre del: semanticAnalysis.simps)
qed




end
